theory Spec2Isabelle
  imports Complex_Main "HOL-Library.Sublist" "HOL-Library.Char_ord"
    "HOL-Library.List_Lexorder" "HOL-Library.Product_Lexorder" "HOL-Library.Multiset"
begin

section \<open>privacy-sweep: identity parsing, link scoring and result aggregation\<close>

text \<open>
  A shallow embedding of \<^verbatim>\<open>pdr_scanner.py\<close>. A Python \<^verbatim>\<open>str\<close> is a \<^typ>\<open>string\<close>
  whose characters are read as ASCII code points; the character classes below are the
  ASCII part of the classes Python uses (\<^verbatim>\<open>str.isspace\<close>, \<^verbatim>\<open>str.isalpha\<close>, and
  \<^verbatim>\<open>\s\<close>, \<^verbatim>\<open>\d\<close>, \<^verbatim>\<open>\w\<close> of the \<^verbatim>\<open>re\<close> module on \<^verbatim>\<open>str\<close> patterns). A
  character above 127 belongs to none of the classes and is left alone by the case
  conversions. A \<^verbatim>\<open>float\<close> score is an exact rational: the theorems about scores use
  only the order, that adding a non-negative weight to a non-negative sum gives a
  non-negative sum, and that \<^verbatim>\<open>min(score, 1.0)\<close> is at most one.
\<close>

subsection \<open>Characters and the string methods used by the source\<close>

definition code :: "char \<Rightarrow> nat" where
  "code c = of_char c"

text \<open>\<^verbatim>\<open>str.isspace\<close> and \<^verbatim>\<open>\s\<close>: tab, LF, VT, FF, CR, FS, GS, RS, US and space.\<close>

definition is_space :: "char \<Rightarrow> bool" where
  "is_space c = ((9 \<le> code c \<and> code c \<le> 13) \<or> (28 \<le> code c \<and> code c \<le> 32))"

text \<open>\<^verbatim>\<open>\d\<close>; \<^verbatim>\<open>\D\<close> is its complement.\<close>

definition is_digit :: "char \<Rightarrow> bool" where
  "is_digit c = (48 \<le> code c \<and> code c \<le> 57)"

definition is_upper :: "char \<Rightarrow> bool" where
  "is_upper c = (65 \<le> code c \<and> code c \<le> 90)"

definition is_lower :: "char \<Rightarrow> bool" where
  "is_lower c = (97 \<le> code c \<and> code c \<le> 122)"

definition is_alpha :: "char \<Rightarrow> bool" where
  "is_alpha c = (is_upper c \<or> is_lower c)"

text \<open>\<^verbatim>\<open>\w\<close>: letters, digits and the underscore.\<close>

definition is_word :: "char \<Rightarrow> bool" where
  "is_word c = (is_alpha c \<or> is_digit c \<or> c = CHR ''_'')"

definition upper_char :: "char \<Rightarrow> char" where
  "upper_char c = (if is_lower c then char_of (code c - 32) else c)"

definition lower_char :: "char \<Rightarrow> char" where
  "lower_char c = (if is_upper c then char_of (code c + 32) else c)"

text \<open>\<^verbatim>\<open>s.upper()\<close>, \<^verbatim>\<open>s.lower()\<close>, \<^verbatim>\<open>s.isalpha()\<close>, \<^verbatim>\<open>s.capitalize()\<close>.\<close>

definition upper :: "string \<Rightarrow> string" where
  "upper s = map upper_char s"

definition lower :: "string \<Rightarrow> string" where
  "lower s = map lower_char s"

definition isalpha :: "string \<Rightarrow> bool" where
  "isalpha s = (s \<noteq> [] \<and> list_all is_alpha s)"

definition capitalize :: "string \<Rightarrow> string" where
  "capitalize s = (case s of [] \<Rightarrow> [] | c # cs \<Rightarrow> upper_char c # lower cs)"

text \<open>\<^verbatim>\<open>s.strip()\<close>: whitespace removed at both ends.\<close>

definition strip :: "string \<Rightarrow> string" where
  "strip s = rev (dropWhile is_space (rev (dropWhile is_space s)))"

text \<open>
  \<^verbatim>\<open>s.split()\<close>: the maximal runs of non-whitespace characters. The first argument is
  the token read so far.
\<close>

fun split_ws :: "string \<Rightarrow> string \<Rightarrow> string list" where
  "split_ws tok [] = (if tok = [] then [] else [tok])"
| "split_ws tok (c # cs) =
     (if is_space c then (if tok = [] then split_ws [] cs else tok # split_ws [] cs)
      else split_ws (tok @ [c]) cs)"

definition split :: "string \<Rightarrow> string list" where
  "split s = split_ws [] s"

text \<open>
  \<^verbatim>\<open>s.split(sep)\<close> for a separator of one character: one more piece than there are
  separators, empty pieces kept.
\<close>

fun split_at :: "char \<Rightarrow> string \<Rightarrow> string \<Rightarrow> string list" where
  "split_at sep tok [] = [tok]"
| "split_at sep tok (c # cs) =
     (if c = sep then tok # split_at sep [] cs else split_at sep (tok @ [c]) cs)"

definition split_on :: "char \<Rightarrow> string \<Rightarrow> string list" where
  "split_on sep s = split_at sep [] s"

text \<open>\<^verbatim>\<open>sep.join(xs)\<close>.\<close>

fun join :: "string \<Rightarrow> string list \<Rightarrow> string" where
  "join sep [] = []"
| "join sep [x] = x"
| "join sep (x # y # ys) = x @ sep @ join sep (y # ys)"

text \<open>\<^verbatim>\<open>sub in s\<close> on strings: \<^verbatim>\<open>sub\<close> occurs in \<^verbatim>\<open>s\<close> as a contiguous block.\<close>

fun contains :: "string \<Rightarrow> string \<Rightarrow> bool" where
  "contains sub [] = (sub = [])"
| "contains sub (c # cs) = (prefix sub (c # cs) \<or> contains sub cs)"

text \<open>
  \<^verbatim>\<open>s.replace(old, new)\<close>: every occurrence of \<^verbatim>\<open>old\<close>, found from left to right
  without overlap, becomes \<^verbatim>\<open>new\<close>. An empty \<^verbatim>\<open>old\<close> matches before every character
  and at the end.
\<close>

function replace_scan :: "string \<Rightarrow> string \<Rightarrow> string \<Rightarrow> string" where
  "replace_scan old new [] = []"
| "replace_scan old new (c # cs) =
     (if old \<noteq> [] \<and> prefix old (c # cs)
      then new @ replace_scan old new (drop (length old) (c # cs))
      else c # replace_scan old new cs)"
  by pat_completeness auto
termination
  by (relation "measure (\<lambda>(old, new, s). length s)") (auto simp: neq_Nil_conv)

definition replace :: "string \<Rightarrow> string \<Rightarrow> string \<Rightarrow> string" where
  "replace old new s =
     (if old = [] then new @ concat (map (\<lambda>c. c # new) s) else replace_scan old new s)"

text \<open>
  \<^verbatim>\<open>xs[-n:]\<close>: the last \<^verbatim>\<open>n\<close> elements, the whole list when it is shorter. (\<^verbatim>\<open>n\<close>
  is 10, 4 and 2 in the source, never 0, where the slice would be the whole list.)
\<close>

definition last_slice :: "nat \<Rightarrow> 'a list \<Rightarrow> 'a list" where
  "last_slice n xs = drop (length xs - n) xs"

subsection \<open>Regular expressions with the backtracking order of \<^verbatim>\<open>re\<close>\<close>

datatype regex =
    Lit char
  | Class "char \<Rightarrow> bool"
  | Cat regex regex
  | Opt regex
  | Plus "char \<Rightarrow> bool"

text \<open>
  \<open>Opt r\<close> is the greedy \<^verbatim>\<open>r?\<close> and \<open>Plus P\<close> the greedy \<^verbatim>\<open>[...]+\<close> over a character
  class, the only repetition the two patterns use. \<open>run P s\<close> lists what is left of
  \<open>s\<close> after one or more characters of the class, the longest run first.
\<close>

fun run :: "(char \<Rightarrow> bool) \<Rightarrow> string \<Rightarrow> string list" where
  "run P [] = []"
| "run P (c # cs) = (if P c then run P cs @ [cs] else [])"

text \<open>
  \<open>matches r s\<close> lists, in the order in which the backtracking matcher tries them,
  the rests of \<open>s\<close> after each way of matching \<open>r\<close> at the start of \<open>s\<close>.
\<close>

fun matches :: "regex \<Rightarrow> string \<Rightarrow> string list" where
  "matches (Lit a) s = (case s of [] \<Rightarrow> [] | c # cs \<Rightarrow> if c = a then [cs] else [])"
| "matches (Class P) s = (case s of [] \<Rightarrow> [] | c # cs \<Rightarrow> if P c then [cs] else [])"
| "matches (Cat r1 r2) s = concat (map (matches r2) (matches r1 s))"
| "matches (Opt r) s = matches r s @ [s]"
| "matches (Plus P) s = run P s"

text \<open>\<^verbatim>\<open>pattern.match(s)\<close>: the text of the first successful way, if any.\<close>

definition re_match :: "regex \<Rightarrow> string \<Rightarrow> string option" where
  "re_match r s =
     (case matches r s of [] \<Rightarrow> None | rest # _ \<Rightarrow> Some (take (length s - length rest) s))"

text \<open>
  \<^verbatim>\<open>pattern.findall(s)\<close> for a pattern without capture groups: the matched texts,
  leftmost first, the search resuming where the last match ended. After an empty match
  the search resumes one character further; neither pattern of the source has an empty
  match (\<open>findall_email_nonempty\<close> and \<open>findall_phone_nonempty\<close> below).
\<close>

function findall :: "regex \<Rightarrow> string \<Rightarrow> string list" where
  "findall r [] = (case re_match r [] of None \<Rightarrow> [] | Some m \<Rightarrow> [m])"
| "findall r (c # cs) =
     (case re_match r (c # cs) of
        None \<Rightarrow> findall r cs
      | Some m \<Rightarrow>
          if m = [] then m # findall r cs
          else m # findall r (drop (length m) (c # cs)))"
  by pat_completeness auto
termination
  by (relation "measure (\<lambda>(r, s). length s)") (auto simp: neq_Nil_conv)

text \<open>\<^verbatim>\<open>re.sub(pattern, '', s)\<close> for a pattern that is one character class.\<close>

fun re_sub_class :: "(char \<Rightarrow> bool) \<Rightarrow> string \<Rightarrow> string" where
  "re_sub_class P [] = []"
| "re_sub_class P (c # cs) =
     (case re_match (Class P) (c # cs) of
        None \<Rightarrow> c # re_sub_class P cs
      | Some m \<Rightarrow> re_sub_class P cs)"

subsection \<open>The patterns and the state codes\<close>

text \<open>\<^verbatim>\<open>EMAIL_RE = [\w\.-]+@[\w\.-]+\.\w+\<close>\<close>

definition word_dot_dash :: "char \<Rightarrow> bool" where
  "word_dot_dash c = (is_word c \<or> c = CHR ''.'' \<or> c = CHR ''-'')"

definition EMAIL_RE :: regex where
  "EMAIL_RE =
     Cat (Plus word_dot_dash) (Cat (Lit CHR ''@'') (Cat (Plus word_dot_dash)
       (Cat (Lit CHR ''.'') (Plus is_word))))"

text \<open>
  \<^verbatim>\<open>PHONE_RE = (?:(?:\+?1[-.\s]?)?\(?\d{3}\)?[-.\s]?\d{3}[-.\s]?\d{4})\<close>
\<close>

definition sep_char :: "char \<Rightarrow> bool" where
  "sep_char c = (c = CHR ''-'' \<or> c = CHR ''.'' \<or> is_space c)"

definition digits3 :: regex where
  "digits3 = Cat (Class is_digit) (Cat (Class is_digit) (Class is_digit))"

definition digits4 :: regex where
  "digits4 = Cat (Class is_digit) digits3"

definition country_prefix :: regex where
  "country_prefix = Cat (Opt (Lit CHR ''+'')) (Cat (Lit CHR ''1'') (Opt (Class sep_char)))"

definition PHONE_RE :: regex where
  "PHONE_RE =
     Cat (Opt country_prefix) (Cat (Opt (Lit CHR ''('')) (Cat digits3
       (Cat (Opt (Lit CHR '')'')) (Cat (Opt (Class sep_char)) (Cat digits3
         (Cat (Opt (Class sep_char)) digits4))))))"

definition STATE_ABBR :: "string list" where
  "STATE_ABBR =
     [''AL'', ''AK'', ''AZ'', ''AR'', ''CA'', ''CO'', ''CT'', ''DE'', ''FL'', ''GA'',
      ''HI'', ''ID'', ''IL'', ''IN'', ''IA'', ''KS'', ''KY'', ''LA'', ''ME'', ''MD'',
      ''MA'', ''MI'', ''MN'', ''MS'', ''MO'', ''MT'', ''NE'', ''NV'', ''NH'', ''NJ'',
      ''NM'', ''NY'', ''NC'', ''ND'', ''OH'', ''OK'', ''OR'', ''PA'', ''RI'', ''SC'',
      ''SD'', ''TN'', ''TX'', ''UT'', ''VT'', ''VA'', ''WA'', ''WV'', ''WI'', ''WY'',
      ''DC'']"

subsection \<open>Errors and indexing\<close>

datatype py_error = IndexError | ValueError | HTTPError

text \<open>\<^verbatim>\<open>xs[i]\<close>: a negative index counts from the end; out of range raises.\<close>

definition item :: "'a list \<Rightarrow> int \<Rightarrow> py_error + 'a" where
  "item xs i =
     (if 0 \<le> i \<and> i < int (length xs) then Inr (xs ! nat i)
      else if i < 0 \<and> - i \<le> int (length xs) then Inr (xs ! nat (int (length xs) + i))
      else Inl IndexError)"

subsection \<open>\<^verbatim>\<open>smart_parse\<close>\<close>

record QueryParts =
  name :: string
  city :: "string option"
  state :: "string option"
  emails :: "string list"
  phones :: "string list"
  raw :: string

text \<open>
  Lines 50 to 52: every email found in the query, then every phone text found in the
  query, is replaced by a space in the working text, one \<^verbatim>\<open>replace\<close> call each.
\<close>

definition work_text :: "string \<Rightarrow> string" where
  "work_text query =
     foldl (\<lambda>work p. replace p '' '' work)
       (foldl (\<lambda>work e. replace e '' '' work) query (findall EMAIL_RE query))
       (findall PHONE_RE query)"

text \<open>Line 53: the stripped, non-empty pieces between commas.\<close>

definition segments :: "string \<Rightarrow> string list" where
  "segments work = map strip (filter (\<lambda>p. strip p \<noteq> []) (split_on CHR '','' work))"

text \<open>Lines 56 and 57.\<close>

definition pick_name :: "string list \<Rightarrow> py_error + string" where
  "pick_name parts =
     (let candidates = filter (\<lambda>seg. 2 \<le> length (split seg) \<and> length (split seg) \<le> 4) parts
      in if candidates \<noteq> [] then item candidates 0 else item parts 0)"

text \<open>
  Lines 58 to 65, the loop over \<^verbatim>\<open>parts[1:]\<close>: the result is the pair of \<^verbatim>\<open>city\<close>
  and \<^verbatim>\<open>state\<close> when the loop ends.
\<close>

fun find_state :: "string list \<Rightarrow> py_error + (string option \<times> string option)" where
  "find_state [] = Inr (None, None)"
| "find_state (seg # segs) =
     (let tokens = split (replace ''.'' '' '' seg) in
      if tokens \<noteq> [] then
        (case item tokens (- 1) of
           Inl e \<Rightarrow> Inl e
         | Inr t \<Rightarrow>
             (let maybe_state = upper t in
              if maybe_state \<in> set STATE_ABBR then
                Inr (let c = join '' '' (butlast tokens) in if c = [] then None else Some c,
                     Some maybe_state)
              else find_state segs))
      else find_state segs)"

text \<open>Line 66.\<close>

definition title_name :: "string \<Rightarrow> string" where
  "title_name n = join '' '' (map (\<lambda>w. if isalpha w then capitalize w else w) (split n))"

text \<open>
  Lines 53 to 66: the name, the city and the state, read from the working text alone.
\<close>

definition parse_fields :: "string \<Rightarrow> py_error + (string \<times> string option \<times> string option)" where
  "parse_fields work =
     (let parts = segments work
      in case (if parts \<noteq> [] then
                 (case pick_name parts of
                    Inl e \<Rightarrow> Inl e
                  | Inr n \<Rightarrow>
                      (case find_state (tl parts) of
                         Inl e \<Rightarrow> Inl e
                       | Inr (c, s) \<Rightarrow> Inr (n, c, s)))
               else Inr ([], None, None)) of
           Inl e \<Rightarrow> Inl e
         | Inr (n, c, s) \<Rightarrow> Inr (title_name n, c, s))"

definition smart_parse :: "string \<Rightarrow> py_error + QueryParts" where
  "smart_parse query =
     (let emails = findall EMAIL_RE query;
          phones = map (\<lambda>p. last_slice 10 (re_sub_class (\<lambda>c. \<not> is_digit c) p))
                     (findall PHONE_RE query)
      in case parse_fields (work_text query) of
           Inl e \<Rightarrow> Inl e
         | Inr (n, c, s) \<Rightarrow>
             Inr \<lparr>name = n, city = c, state = s, emails = emails, phones = phones,
                  raw = query\<rparr>)"

subsection \<open>The language of a pattern\<close>

text \<open>
  The texts a pattern can match, whatever the order of the attempts: the matcher above
  only ever cuts such a text off the front of its input (\<open>matches_lang\<close> below).
\<close>

fun lang :: "regex \<Rightarrow> string set" where
  "lang (Lit a) = {[a]}"
| "lang (Class P) = {[c] | c. P c}"
| "lang (Cat r1 r2) = {x @ y | x y. x \<in> lang r1 \<and> y \<in> lang r2}"
| "lang (Opt r) = insert [] (lang r)"
| "lang (Plus P) = {m. m \<noteq> [] \<and> list_all P m}"

subsection \<open>\<^verbatim>\<open>score_link_text\<close>\<close>

record ResultItem =
  site :: string
  title :: string
  url :: string
  score :: rat
  matched_fields :: "string list"

text \<open>
  The four accumulating steps of lines 208 to 217 act on the pair of \<^verbatim>\<open>score\<close> and
  \<^verbatim>\<open>matched\<close>. \<^verbatim>\<open>em.split('@')[0]\<close> cannot raise: a split has at least one piece
  (\<open>split_on_not_Nil\<close> below).
\<close>

definition name_step :: "string \<Rightarrow> rat \<times> string list \<Rightarrow> string \<Rightarrow> rat \<times> string list" where
  "name_step hay acc tok =
     (if tok \<noteq> [] \<and> contains tok hay then (fst acc + 0.15, snd acc @ [tok]) else acc)"

definition city_step :: "string \<Rightarrow> rat \<times> string list \<Rightarrow> string option \<Rightarrow> rat \<times> string list" where
  "city_step hay acc c =
     (case c of
        None \<Rightarrow> acc
      | Some v \<Rightarrow>
          if v \<noteq> [] \<and> contains (lower v) hay then (fst acc + 0.15, snd acc @ [v]) else acc)"

definition state_step :: "string \<Rightarrow> rat \<times> string list \<Rightarrow> string option \<Rightarrow> rat \<times> string list" where
  "state_step hay acc s =
     (case s of
        None \<Rightarrow> acc
      | Some v \<Rightarrow>
          if v \<noteq> [] \<and> contains (lower v) hay then (fst acc + 0.10, snd acc @ [v]) else acc)"

definition email_step :: "string \<Rightarrow> rat \<times> string list \<Rightarrow> string \<Rightarrow> rat \<times> string list" where
  "email_step hay acc em =
     (let user = lower (hd (split_on CHR ''@'' em))
      in if contains user hay then (fst acc + 0.20, snd acc @ [em]) else acc)"

definition phone_step :: "string \<Rightarrow> rat \<times> string list \<Rightarrow> string \<Rightarrow> rat \<times> string list" where
  "phone_step hay acc ph =
     (let last4 = last_slice 4 ph
      in if last4 \<noteq> [] \<and> contains last4 hay then (fst acc + 0.20, snd acc @ [''*'' @ last4])
         else acc)"

text \<open>The sum before the cap of line 218.\<close>

definition raw_score :: "string \<Rightarrow> string \<Rightarrow> QueryParts \<Rightarrow> rat \<times> string list" where
  "raw_score text u q =
     (let hay = lower (text @ '' '' @ u);
          acc1 = foldl (name_step hay) (0, []) (split (lower (name q)));
          acc2 = city_step hay acc1 (city q);
          acc3 = state_step hay acc2 (state q);
          acc4 = foldl (email_step hay) acc3 (emails q)
      in foldl (phone_step hay) acc4 (phones q))"

definition score_link_text :: "string \<Rightarrow> string \<Rightarrow> QueryParts \<Rightarrow> rat \<times> string list" where
  "score_link_text text u q = (min (fst (raw_score text u q)) 1.0, snd (raw_score text u q))"

subsection \<open>\<^verbatim>\<open>best_effort_scrape\<close>\<close>

text \<open>
  What the function takes from outside: whether \<^verbatim>\<open>httpx\<close> and \<^verbatim>\<open>BeautifulSoup\<close> were
  imported; for a URL, the anchors of the fetched page as pairs of \<^verbatim>\<open>href\<close> and
  \<^verbatim>\<open>get_text()\<close>, or the exception of the request or of the parser; and
  \<^verbatim>\<open>urlparse(u).netloc\<close>, which raises \<^verbatim>\<open>ValueError\<close> on some inputs.
\<close>

record web =
  available :: bool
  anchors :: "string \<Rightarrow> py_error + (string \<times> string) list"
  netloc :: "string \<Rightarrow> py_error + string"

text \<open>Lines 236 to 248: the loop over the anchors, with \<^verbatim>\<open>seen\<close> and \<^verbatim>\<open>out\<close>.\<close>

fun scrape_loop ::
  "web \<Rightarrow> string \<Rightarrow> string \<Rightarrow> QueryParts \<Rightarrow> (string \<times> string) list \<Rightarrow>
   string set \<times> ResultItem list \<Rightarrow> py_error + ResultItem list" where
  "scrape_loop w st domain q [] (seen, out) = Inr out"
| "scrape_loop w st domain q ((href, txt) # rest) (seen, out) =
     (if prefix ''#'' href then scrape_loop w st domain q rest (seen, out)
      else
        (case netloc w href of
           Inl e \<Rightarrow> Inl e
         | Inr nl \<Rightarrow>
             (case item (split_on CHR '':'' (if nl \<noteq> [] then nl else domain)) 0 of
                Inl e \<Rightarrow> Inl e
              | Inr host \<Rightarrow>
                  if last_slice 2 (split_on CHR ''.'' domain) \<noteq> last_slice 2 (split_on CHR ''.'' host)
                  then scrape_loop w st domain q rest (seen, out)
                  else
                    (let full = (if nl \<noteq> [] then href else ''https://'' @ domain @ href) in
                     if full \<in> seen then scrape_loop w st domain q rest (seen, out)
                     else
                       (let text = strip txt;
                            sm = score_link_text text full q
                        in scrape_loop w st domain q rest
                             (insert full seen,
                              if fst sm \<ge> 0.4
                              then out @ [\<lparr>site = st, title = take 120 text, url = full,
                                           score = fst sm, matched_fields = snd sm\<rparr>]
                              else out))))))"

text \<open>
  \<^verbatim>\<open>list.sort(key=..., reverse=True)\<close> and \<^verbatim>\<open>sorted(..., key=..., reverse=True)\<close>:
  a stable sort of the reversed list, reversed again, so that items with equal keys
  keep their order.
\<close>

definition sort_reverse :: "('a \<Rightarrow> 'k::linorder) \<Rightarrow> 'a list \<Rightarrow> 'a list" where
  "sort_reverse f xs = rev (sort_key f (rev xs))"

definition best_effort_scrape :: "web \<Rightarrow> string \<Rightarrow> string \<Rightarrow> QueryParts \<Rightarrow> ResultItem list" where
  "best_effort_scrape w st u q =
     (if \<not> available w then []
      else
        (case (case anchors w u of
                 Inl e \<Rightarrow> Inl e
               | Inr links \<Rightarrow>
                   (case netloc w u of
                      Inl e \<Rightarrow> Inl e
                    | Inr nl \<Rightarrow>
                        (case item (split_on CHR '':'' nl) 0 of
                           Inl e \<Rightarrow> Inl e
                         | Inr domain \<Rightarrow> scrape_loop w st domain q links ({}, [])))) of
           Inl e \<Rightarrow> []
         | Inr out \<Rightarrow> take 15 (sort_reverse score out)))"

subsection \<open>Aggregation in \<^verbatim>\<open>main\<close>\<close>

text \<open>
  Lines 362 to 366 append the items of every site, in the order of the sites, to
  \<^verbatim>\<open>rows\<close>. Line 369 builds a \<^verbatim>\<open>dict\<close> keyed by URL: a dictionary keeps its keys in
  the order of their first insertion, and a later value for a key replaces the earlier
  one in place. Line 370 sorts its values by the pair of score and site, reversed.
\<close>

definition collect :: "ResultItem list list \<Rightarrow> ResultItem list" where
  "collect per_site = concat per_site"

fun dict_put :: "('k \<times> 'v) list \<Rightarrow> 'k \<Rightarrow> 'v \<Rightarrow> ('k \<times> 'v) list" where
  "dict_put [] k v = [(k, v)]"
| "dict_put ((k', v') # d) k v =
     (if k' = k then (k, v) # d else (k', v') # dict_put d k v)"

definition uniq :: "ResultItem list \<Rightarrow> (string \<times> ResultItem) list" where
  "uniq rows = foldl (\<lambda>d it. dict_put d (url it) it) [] rows"

definition dict_values :: "('k \<times> 'v) list \<Rightarrow> 'v list" where
  "dict_values d = map snd d"

definition aggregate :: "ResultItem list list \<Rightarrow> ResultItem list" where
  "aggregate per_site =
     sort_reverse (\<lambda>x. (score x, site x)) (dict_values (uniq (collect per_site)))"

section \<open>Properties\<close>

subsection \<open>The score of a link\<close>

lemma split_at_not_Nil: "split_at sep tok s \<noteq> []"
  by (induction s arbitrary: tok) simp_all

lemma split_on_not_Nil: "split_on sep s \<noteq> []"
  by (simp add: split_on_def split_at_not_Nil)

lemma foldl_fst_nonneg:
  assumes step: "\<And>acc x. (0::rat) \<le> fst acc \<Longrightarrow> 0 \<le> fst (f acc x)"
  shows "0 \<le> fst acc \<Longrightarrow> 0 \<le> fst (foldl f acc xs)"
  by (induction xs arbitrary: acc) (simp_all add: step)

lemma name_step_nonneg: "0 \<le> fst acc \<Longrightarrow> 0 \<le> fst (name_step hay acc tok)"
  by (simp add: name_step_def)

lemma city_step_nonneg: "0 \<le> fst acc \<Longrightarrow> 0 \<le> fst (city_step hay acc c)"
  by (simp add: city_step_def split: option.splits)

lemma state_step_nonneg: "0 \<le> fst acc \<Longrightarrow> 0 \<le> fst (state_step hay acc c)"
  by (simp add: state_step_def split: option.splits)

lemma email_step_nonneg: "0 \<le> fst acc \<Longrightarrow> 0 \<le> fst (email_step hay acc em)"
  by (simp add: email_step_def Let_def)

lemma phone_step_nonneg: "0 \<le> fst acc \<Longrightarrow> 0 \<le> fst (phone_step hay acc ph)"
  by (simp add: phone_step_def Let_def)

lemma raw_score_nonneg: "0 \<le> fst (raw_score lnk u q)"
proof -
  define hay where "hay = lower (lnk @ '' '' @ u)"
  define acc1 where "acc1 = foldl (name_step hay) (0, []) (split (lower (name q)))"
  define acc2 where "acc2 = city_step hay acc1 (city q)"
  define acc3 where "acc3 = state_step hay acc2 (state q)"
  define acc4 where "acc4 = foldl (email_step hay) acc3 (emails q)"
  have "0 \<le> fst acc1"
    unfolding acc1_def by (rule foldl_fst_nonneg) (simp_all add: name_step_nonneg)
  then have "0 \<le> fst acc2"
    unfolding acc2_def by (rule city_step_nonneg)
  then have "0 \<le> fst acc3"
    unfolding acc3_def by (rule state_step_nonneg)
  then have "0 \<le> fst acc4"
    unfolding acc4_def by (rule foldl_fst_nonneg [rotated]) (rule email_step_nonneg)
  then have "0 \<le> fst (foldl (phone_step hay) acc4 (phones q))"
    by (rule foldl_fst_nonneg [rotated]) (rule phone_step_nonneg)
  then show ?thesis
    by (simp add: raw_score_def Let_def hay_def acc1_def acc2_def acc3_def acc4_def)
qed

text \<open>
  The sum is not bounded before the cap: seven matching name tokens already give 1.05.
\<close>

lemma raw_score_above_one:
  "fst (raw_score ''a b c d e f g'' [] \<lparr>name = ''a b c d e f g'', city = None, state = None,
      emails = [], phones = [], raw = []\<rparr>) = 1.05"
  by code_simp

text \<open>
  Claim C4. For every link text, URL and identity record the score returned by
  \<^verbatim>\<open>score_link_text\<close> lies in the interval from 0 to 1: the sum of the contributions
  is never negative, and the result is that sum capped at 1.
\<close>

theorem score_link_text_bounds:
  "0 \<le> fst (score_link_text lnk u q) \<and> fst (score_link_text lnk u q) \<le> 1 \<and>
   0 \<le> fst (raw_score lnk u q) \<and>
   fst (score_link_text lnk u q) = min (fst (raw_score lnk u q)) 1"
  using raw_score_nonneg [of lnk u q] by (simp add: score_link_text_def)

subsection \<open>The scenario of the specification\<close>

text \<open>
  Claim C1, as the code has it. Parsing \<^verbatim>\<open>Jane A. Doe, Austin, TX\<close> gives the name
  \<^verbatim>\<open>Jane A. Doe\<close>, the state \<^verbatim>\<open>TX\<close>, no emails and no phones, and no city: the
  city is taken from the tokens that precede the state code inside the same
  comma-separated segment, and the segment \<^verbatim>\<open>TX\<close> has none.
\<close>

theorem smart_parse_jane:
  "smart_parse ''Jane A. Doe, Austin, TX'' =
     Inr \<lparr>name = ''Jane A. Doe'', city = None, state = Some ''TX'', emails = [],
          phones = [], raw = ''Jane A. Doe, Austin, TX''\<rparr>"
  by code_simp

text \<open>The record that claim C1 states, with the city \<^verbatim>\<open>Austin\<close>, is not the result.\<close>

theorem smart_parse_jane_counterexample:
  "smart_parse ''Jane A. Doe, Austin, TX'' \<noteq>
     Inr \<lparr>name = ''Jane A. Doe'', city = Some ''Austin'', state = Some ''TX'', emails = [],
          phones = [], raw = ''Jane A. Doe, Austin, TX''\<rparr>"
  by code_simp

text \<open>With the city and the state in one segment the city is found.\<close>

lemma smart_parse_jane_one_segment:
  "smart_parse ''Jane A. Doe, Austin TX'' =
     Inr \<lparr>name = ''Jane A. Doe'', city = Some ''Austin'', state = Some ''TX'', emails = [],
          phones = [], raw = ''Jane A. Doe, Austin TX''\<rparr>"
  by code_simp

subsection \<open>Aggregation\<close>

lemma set_sort_reverse: "set (sort_reverse f xs) = set xs"
  by (simp add: sort_reverse_def)

lemma mset_sort_reverse: "mset (sort_reverse f xs) = mset xs"
  by (simp add: sort_reverse_def)

lemma length_sort_reverse: "length (sort_reverse f xs) = length xs"
  by (simp add: sort_reverse_def)

lemma sorted_sort_reverse: "sorted_wrt (\<lambda>a b. f b \<le> f a) (sort_reverse f xs)"
proof -
  have "sorted (map f (sort_key f (rev xs)))"
    by (rule sorted_sort_key)
  then have "sorted_wrt (\<lambda>a b. f a \<le> f b) (sort_key f (rev xs))"
    by (simp add: sorted_map)
  then show ?thesis
    by (simp add: sort_reverse_def sorted_wrt_rev)
qed

lemma distinct_map_sort_reverse:
  "distinct (map g (sort_reverse f xs)) = distinct (map g xs)"
proof -
  have "mset (map g (sort_reverse f xs)) = mset (map g xs)"
    by (simp add: mset_sort_reverse)
  then show ?thesis
    by (rule mset_eq_imp_distinct_iff)
qed

lemma dict_put_keys:
  "map fst (dict_put d k v) = (if k \<in> fst ` set d then map fst d else map fst d @ [k])"
  by (induction d k v rule: dict_put.induct) auto

lemma dict_put_distinct: "distinct (map fst d) \<Longrightarrow> distinct (map fst (dict_put d k v))"
  by (simp add: dict_put_keys)

lemma dict_put_map_of: "map_of (dict_put d k v) = (map_of d)(k \<mapsto> v)"
  by (induction d k v rule: dict_put.induct) auto

lemma foldl_put_distinct:
  "distinct (map fst d) \<Longrightarrow> distinct (map fst (foldl (\<lambda>d it. dict_put d (url it) it) d rows))"
  by (induction rows arbitrary: d) (simp_all add: dict_put_distinct)

lemma foldl_put_map_of:
  "map_of (foldl (\<lambda>d it. dict_put d (url it) it) d rows) =
   map_of (rev (map (\<lambda>it. (url it, it)) rows) @ d)"
  by (induction rows arbitrary: d)
    (simp_all add: dict_put_map_of map_add_upd_left fun_eq_iff map_add_def split: option.splits)

lemma uniq_distinct: "distinct (map fst (uniq rows))"
  unfolding uniq_def by (rule foldl_put_distinct) simp

lemma uniq_map_of: "map_of (uniq rows) = map_of (rev (map (\<lambda>it. (url it, it)) rows))"
  by (simp add: uniq_def foldl_put_map_of)

text \<open>The value stored under a key is the last row with that URL.\<close>

lemma last_with_url:
  "map_of (rev (map (\<lambda>it. (url it, it)) rows)) k = Some v \<Longrightarrow>
   \<exists>pre post. rows = pre @ v # post \<and> url v = k \<and> k \<notin> url ` set post"
proof (induction rows rule: rev_induct)
  case Nil
  then show ?case by simp
next
  case (snoc x rows)
  show ?case
  proof (cases "url x = k")
    case True
    with snoc.prems have "v = x" by simp
    with True have "rows @ [x] = rows @ v # [] \<and> url v = k \<and> k \<notin> url ` set []" by simp
    then show ?thesis by blast
  next
    case False
    with snoc.prems have "map_of (rev (map (\<lambda>it. (url it, it)) rows)) k = Some v" by simp
    from snoc.IH [OF this] obtain pre post where
      "rows = pre @ v # post" "url v = k" "k \<notin> url ` set post" by blast
    with False
    have "rows @ [x] = pre @ v # (post @ [x]) \<and> url v = k \<and> k \<notin> url ` set (post @ [x])"
      by auto
    then show ?thesis by blast
  qed
qed

lemma uniq_entry:
  assumes "(k, v) \<in> set (uniq rows)"
  shows "\<exists>pre post. rows = pre @ v # post \<and> url v = k \<and> k \<notin> url ` set post"
proof -
  from assms have "map_of (uniq rows) k = Some v"
    by (simp add: uniq_distinct)
  then show ?thesis
    by (simp add: uniq_map_of last_with_url)
qed

lemma uniq_keys: "set (map fst (uniq rows)) = url ` set rows"
proof -
  have "set (map fst (uniq rows)) = dom (map_of (uniq rows))"
    by (simp add: dom_map_of_conv_image_fst)
  also have "\<dots> = url ` set rows"
    by (simp add: uniq_map_of dom_map_of_conv_image_fst image_image)
  finally show ?thesis .
qed

lemma uniq_values_url: "map url (dict_values (uniq rows)) = map fst (uniq rows)"
proof -
  have "url (snd p) = fst p" if "p \<in> set (uniq rows)" for p
    using uniq_entry [of "fst p" "snd p" rows] that by auto
  then show ?thesis
    by (simp add: dict_values_def)
qed

text \<open>
  Claim C7. For every list of per-site result lists the aggregated output has no two
  items with the same URL, has an item for every URL of the input, and each of its
  items is the last one with its URL in the concatenation of the per-site lists.
\<close>

theorem aggregate_one_per_url:
  "distinct (map url (aggregate per_site)) \<and>
   url ` set (aggregate per_site) = url ` set (concat per_site) \<and>
   (\<forall>it \<in> set (aggregate per_site).
      \<exists>pre post. concat per_site = pre @ it # post \<and> url it \<notin> url ` set post)"
proof (intro conjI ballI)
  show "distinct (map url (aggregate per_site))"
    by (simp add: aggregate_def distinct_map_sort_reverse uniq_values_url uniq_distinct)
  have "url ` set (dict_values (uniq (collect per_site))) = url ` set (collect per_site)"
    using uniq_keys [of "collect per_site"] uniq_values_url [of "collect per_site"]
    by (metis set_map)
  then show "url ` set (aggregate per_site) = url ` set (concat per_site)"
    by (simp add: aggregate_def set_sort_reverse collect_def)
  fix it assume "it \<in> set (aggregate per_site)"
  then have "it \<in> snd ` set (uniq (collect per_site))"
    by (simp add: aggregate_def set_sort_reverse dict_values_def)
  then obtain k where "(k, it) \<in> set (uniq (collect per_site))" by auto
  from uniq_entry [OF this]
  show "\<exists>pre post. concat per_site = pre @ it # post \<and> url it \<notin> url ` set post"
    by (auto simp: collect_def)
qed

text \<open>
  Two sites report the same URL with different scores: the item of the second site is
  the one kept, although its score is the lower one.
\<close>

theorem aggregate_one_per_url_witness:
  "aggregate
     [[\<lparr>site = ''a'', title = [], url = ''u'', score = 0.9, matched_fields = []\<rparr>],
      [\<lparr>site = ''b'', title = [], url = ''u'', score = 0.5, matched_fields = []\<rparr>]] =
     [\<lparr>site = ''b'', title = [], url = ''u'', score = 0.5, matched_fields = []\<rparr>] \<and>
   (\<exists>pre post.
      concat
        [[\<lparr>site = ''a'', title = [], url = ''u'', score = 0.9, matched_fields = []\<rparr>],
         [\<lparr>site = ''b'', title = [], url = ''u'', score = 0.5, matched_fields = []\<rparr>]] =
      pre @ \<lparr>site = ''b'', title = [], url = ''u'', score = 0.5, matched_fields = []\<rparr> # post \<and>
      url \<lparr>site = ''b'', title = [], url = ''u'', score = 0.5, matched_fields = []\<rparr>
        \<notin> url ` set post)"
proof -
  let ?a = "\<lparr>site = ''a'', title = [], url = ''u'', score = 0.9, matched_fields = []\<rparr>"
  let ?b = "\<lparr>site = ''b'', title = [], url = ''u'', score = 0.5, matched_fields = []\<rparr>"
  have e: "aggregate [[?a], [?b]] = [?b]"
    by code_simp
  have "\<forall>it \<in> set (aggregate [[?a], [?b]]).
      \<exists>pre post. concat [[?a], [?b]] = pre @ it # post \<and> url it \<notin> url ` set post"
    using aggregate_one_per_url [of "[[?a], [?b]]"] by blast
  then have "\<exists>pre post. concat [[?a], [?b]] = pre @ ?b # post \<and> url ?b \<notin> url ` set post"
    unfolding e by simp
  with e show ?thesis by blast
qed

text \<open>
  Claim C2, as the code has it. For every list of per-site result lists the aggregated
  output is sorted non-increasing by score, and any two items with equal score appear
  in descending order of their site identifier: \<^verbatim>\<open>reverse=True\<close> reverses the order
  of the whole key, the pair of score and site.
\<close>

theorem aggregate_order:
  "sorted_wrt (\<lambda>a b. score b \<le> score a) (aggregate per_site) \<and>
   sorted_wrt (\<lambda>a b. score a = score b \<longrightarrow> site b \<le> site a) (aggregate per_site)"
proof -
  have "sorted_wrt (\<lambda>a b. (score b, site b) \<le> (score a, site a)) (aggregate per_site)"
    unfolding aggregate_def by (rule sorted_sort_reverse)
  then have "sorted_wrt (\<lambda>a b. score b \<le> score a \<and> (score a = score b \<longrightarrow> site b \<le> site a))
      (aggregate per_site)"
    by (rule sorted_wrt_mono_rel [rotated]) (auto simp: less_eq_prod_def)
  then show ?thesis
    by (simp add: sorted_wrt_iff_nth_less)
qed

theorem aggregate_order_witness:
  "aggregate
     [[\<lparr>site = ''a'', title = [], url = ''u1'', score = 0.5, matched_fields = []\<rparr>],
      [\<lparr>site = ''b'', title = [], url = ''u2'', score = 0.5, matched_fields = []\<rparr>]] =
     [\<lparr>site = ''b'', title = [], url = ''u2'', score = 0.5, matched_fields = []\<rparr>,
      \<lparr>site = ''a'', title = [], url = ''u1'', score = 0.5, matched_fields = []\<rparr>] \<and>
   ''a'' \<le> ''b'' \<and>
   sorted_wrt (\<lambda>a b. score a = score b \<longrightarrow> site b \<le> site a)
     (aggregate
       [[\<lparr>site = ''a'', title = [], url = ''u1'', score = 0.5, matched_fields = []\<rparr>],
        [\<lparr>site = ''b'', title = [], url = ''u2'', score = 0.5, matched_fields = []\<rparr>]])"
proof -
  let ?a = "\<lparr>site = ''a'', title = [], url = ''u1'', score = 0.5, matched_fields = []\<rparr>"
  let ?b = "\<lparr>site = ''b'', title = [], url = ''u2'', score = 0.5, matched_fields = []\<rparr>"
  have e: "aggregate [[?a], [?b]] = [?b, ?a]"
    by code_simp
  have o: "''a'' \<le> ''b''"
    by code_simp
  from e o aggregate_order [of "[[?a], [?b]]"] show ?thesis
    by blast
qed

text \<open>
  Claim C2 as stated fails: two items with the same score come out with the site
  \<^verbatim>\<open>b\<close> before the site \<^verbatim>\<open>a\<close>, which is not ascending.
\<close>

theorem aggregate_order_counterexample:
  "aggregate
     [[\<lparr>site = ''a'', title = [], url = ''u1'', score = 0.5, matched_fields = []\<rparr>],
      [\<lparr>site = ''b'', title = [], url = ''u2'', score = 0.5, matched_fields = []\<rparr>]] =
     [\<lparr>site = ''b'', title = [], url = ''u2'', score = 0.5, matched_fields = []\<rparr>,
      \<lparr>site = ''a'', title = [], url = ''u1'', score = 0.5, matched_fields = []\<rparr>] \<and>
   \<not> ''b'' \<le> ''a''"
  by code_simp


subsection \<open>The candidates of one site\<close>

text \<open>Every item the loop appends passed the threshold and has a truncated title.\<close>

lemma scrape_loop_kept:
  "scrape_loop w st domain q links (seen, out) = Inr res \<Longrightarrow>
   list_all (\<lambda>it. 0.4 \<le> score it \<and> length (title it) \<le> 120) out \<Longrightarrow> list_all (\<lambda>it. 0.4 \<le> score it \<and> length (title it) \<le> 120) res"
proof (induction links arbitrary: seen out)
  case Nil
  then show ?case by simp
next
  case (Cons a links)
  obtain href t where a: "a = (href, t)" by (cases a)
  from Cons.prems show ?case
    unfolding a
    by (auto simp: Let_def split: if_splits sum.splits dest!: Cons.IH)
qed

lemma best_effort_scrape_cases:
  "best_effort_scrape w st u q = [] \<or>
   (\<exists>out domain links. scrape_loop w st domain q links ({}, []) = Inr out \<and>
      best_effort_scrape w st u q = take 15 (sort_reverse score out))"
  unfolding best_effort_scrape_def by (simp split: sum.splits) blast

text \<open>
  Claim C6. For every site, URL and identity, whatever the page and \<^verbatim>\<open>urlparse\<close>
  give, \<^verbatim>\<open>best_effort_scrape\<close> returns only items with a score of at least 0.4 and a
  title of at most 120 characters, sorted by score descending, at most 15 of them, and
  the empty list when \<^verbatim>\<open>httpx\<close> or \<^verbatim>\<open>BeautifulSoup\<close> is missing.
\<close>

theorem best_effort_scrape_result:
  "(\<forall>it \<in> set (best_effort_scrape w st u q). 0.4 \<le> score it \<and> length (title it) \<le> 120) \<and>
   sorted_wrt (\<lambda>a b. score b \<le> score a) (best_effort_scrape w st u q) \<and>
   length (best_effort_scrape w st u q) \<le> 15 \<and>
   (\<not> available w \<longrightarrow> best_effort_scrape w st u q = [])"
proof -
  have k: "list_all (\<lambda>it. 0.4 \<le> score it \<and> length (title it) \<le> 120) (best_effort_scrape w st u q)"
  proof (cases "best_effort_scrape w st u q = []")
    case False
    with best_effort_scrape_cases [of w st u q] obtain out domain links where
      l: "scrape_loop w st domain q links ({}, []) = Inr out" and
      b: "best_effort_scrape w st u q = take 15 (sort_reverse score out)" by blast
    from scrape_loop_kept [OF l] have "list_all (\<lambda>it. 0.4 \<le> score it \<and> length (title it) \<le> 120) out" by simp
    then have "list_all (\<lambda>it. 0.4 \<le> score it \<and> length (title it) \<le> 120) (sort_reverse score out)"
      by (simp add: list_all_iff set_sort_reverse)
    then show ?thesis
      unfolding b by (auto simp: list_all_iff dest: in_set_takeD)
  next
    case True
    then show ?thesis by simp
  qed
  have s: "sorted_wrt (\<lambda>a b. score b \<le> score a) (best_effort_scrape w st u q)"
    by (auto simp: best_effort_scrape_def sorted_sort_reverse sorted_wrt_take split: sum.splits)
  have n: "length (best_effort_scrape w st u q) \<le> 15"
    by (auto simp: best_effort_scrape_def split: sum.splits)
  have e: "\<not> available w \<longrightarrow> best_effort_scrape w st u q = []"
    by (simp add: best_effort_scrape_def)
  from k have "\<forall>it \<in> set (best_effort_scrape w st u q). 0.4 \<le> score it \<and> length (title it) \<le> 120"
    by (simp add: list_all_iff)
  with s n e show ?thesis by blast
qed


theorem best_effort_scrape_result_witness:
  "best_effort_scrape
     \<lparr>available = True,
      anchors = (\<lambda>u. Inr [(''/john-smith'', '' John Smith Austin TX ''), (''/about'', ''About'')]),
      netloc = (\<lambda>u. Inr (if u = ''https://www.example.com/q'' then ''www.example.com'' else []))\<rparr>
     ''s'' ''https://www.example.com/q''
     \<lparr>name = ''John Smith'', city = Some ''Austin'', state = Some ''TX'', emails = [],
      phones = [], raw = []\<rparr> =
     [\<lparr>site = ''s'', title = ''John Smith Austin TX'',
       url = ''https://www.example.com/john-smith'', score = 0.55,
       matched_fields = [''john'', ''smith'', ''Austin'', ''TX'']\<rparr>] \<and>
   (0.4::rat) \<le> 0.55 \<and> length ''John Smith Austin TX'' \<le> 120 \<and>
   best_effort_scrape
     \<lparr>available = False,
      anchors = (\<lambda>u. Inr [(''/john-smith'', '' John Smith Austin TX ''), (''/about'', ''About'')]),
      netloc = (\<lambda>u. Inr (if u = ''https://www.example.com/q'' then ''www.example.com'' else []))\<rparr>
     ''s'' ''https://www.example.com/q''
     \<lparr>name = ''John Smith'', city = Some ''Austin'', state = Some ''TX'', emails = [],
      phones = [], raw = []\<rparr> = []"
proof -
  let ?a = "\<lambda>u::string. Inr [(''/john-smith'', '' John Smith Austin TX ''), (''/about'', ''About'')]
    :: py_error + (string \<times> string) list"
  let ?n = "\<lambda>u. Inr (if u = ''https://www.example.com/q'' then ''www.example.com'' else [])
    :: py_error + string"
  let ?q = "\<lparr>name = ''John Smith'', city = Some ''Austin'', state = Some ''TX'', emails = [],
      phones = [], raw = []\<rparr>"
  let ?on = "\<lparr>available = True, anchors = ?a, netloc = ?n\<rparr>"
  let ?off = "\<lparr>available = False, anchors = ?a, netloc = ?n\<rparr>"
  have e: "best_effort_scrape ?on ''s'' ''https://www.example.com/q'' ?q =
     [\<lparr>site = ''s'', title = ''John Smith Austin TX'',
       url = ''https://www.example.com/john-smith'', score = 0.55,
       matched_fields = [''john'', ''smith'', ''Austin'', ''TX'']\<rparr>]"
    by code_simp
  from best_effort_scrape_result [of ?on "''s''" "''https://www.example.com/q''" ?q]
  have 1: "(0.4::rat) \<le> 0.55 \<and> length ''John Smith Austin TX'' \<le> 120"
    unfolding e by simp
  from best_effort_scrape_result [of ?off "''s''" "''https://www.example.com/q''" ?q]
  have 2: "best_effort_scrape ?off ''s'' ''https://www.example.com/q'' ?q = []"
    by simp
  from e 1 2 show ?thesis by blast
qed

subsection \<open>What the matcher cuts off is in the language of the pattern\<close>

lemma run_lang: "rest \<in> set (run P s) \<Longrightarrow> \<exists>m. s = m @ rest \<and> m \<noteq> [] \<and> list_all P m"
proof (induction s)
  case Nil
  then show ?case by simp
next
  case (Cons c cs)
  from Cons.prems have p: "P c" and r: "rest \<in> set (run P cs) \<or> rest = cs"
    by (auto split: if_splits)
  from r show ?case
  proof
    assume "rest \<in> set (run P cs)"
    from Cons.IH [OF this] obtain m where "cs = m @ rest" "list_all P m" by blast
    with p have "c # cs = (c # m) @ rest \<and> c # m \<noteq> [] \<and> list_all P (c # m)" by simp
    then show ?thesis by blast
  next
    assume "rest = cs"
    with p have "c # cs = [c] @ rest \<and> [c] \<noteq> [] \<and> list_all P [c]" by simp
    then show ?thesis by blast
  qed
qed

lemma matches_lang: "rest \<in> set (matches r s) \<Longrightarrow> \<exists>m. s = m @ rest \<and> m \<in> lang r"
proof (induction r arbitrary: s rest)
  case (Lit a)
  then show ?case by (auto split: list.splits if_splits)
next
  case (Class P)
  then show ?case by (auto split: list.splits if_splits)
next
  case (Cat r1 r2)
  from Cat.prems obtain mid where m1: "mid \<in> set (matches r1 s)" and m2: "rest \<in> set (matches r2 mid)"
    by auto
  from Cat.IH(1) [OF m1] obtain x where x: "s = x @ mid" "x \<in> lang r1" by blast
  from Cat.IH(2) [OF m2] obtain y where y: "mid = y @ rest" "y \<in> lang r2" by blast
  from x y have "s = (x @ y) @ rest \<and> x @ y \<in> lang (Cat r1 r2)" by auto
  then show ?case by blast
next
  case (Opt r)
  from Opt.prems have "rest \<in> set (matches r s) \<or> rest = s" by auto
  then show ?case
  proof
    assume "rest \<in> set (matches r s)"
    from Opt.IH [OF this] show ?thesis by auto
  next
    assume "rest = s"
    then show ?thesis by simp
  qed
next
  case (Plus P)
  then show ?case using run_lang [of rest P s] by auto
qed

lemma re_match_lang:
  assumes "re_match r s = Some m"
  shows "m \<in> lang r \<and> prefix m s"
proof -
  from assms obtain rest rs where ms: "matches r s = rest # rs"
    and m: "m = take (length s - length rest) s"
    by (auto simp: re_match_def split: list.splits)
  from ms have "rest \<in> set (matches r s)" by simp
  from matches_lang [OF this] obtain x where x: "s = x @ rest" "x \<in> lang r" by blast
  with m have "m = x" by simp
  with x show ?thesis by auto
qed

lemma findall_lang: "m \<in> set (findall r s) \<Longrightarrow> m \<in> lang r"
proof (induction r s rule: findall.induct)
  case (1 r)
  then show ?case by (auto split: option.splits dest: re_match_lang [OF sym])
next
  case (2 r c cs)
  then show ?case by (auto split: option.splits if_splits dest: re_match_lang re_match_lang [OF sym])
qed


lemma email_lang:
  assumes "m \<in> lang EMAIL_RE"
  shows "m \<noteq> [] \<and> CHR '' '' \<notin> set m"
proof -
  have w: "\<not> word_dot_dash CHR '' ''" "\<not> is_word CHR '' ''"
    by (simp_all add: word_dot_dash_def is_word_def is_alpha_def is_upper_def is_lower_def
        is_digit_def code_def)
  from assms show ?thesis
    using w by (auto simp: EMAIL_RE_def list_all_iff)
qed

lemma phone_lang:
  assumes "m \<in> lang PHONE_RE"
  shows "10 \<le> length (filter is_digit m)"
  using assms
  by (auto simp: PHONE_RE_def digits3_def digits4_def)

subsection \<open>Phones\<close>

lemma re_sub_class_filter: "re_sub_class P s = filter (\<lambda>c. \<not> P c) s"
  by (induction s) (simp_all add: re_match_def)

lemma last_slice_rev: "last_slice n xs = rev (take n (rev xs))"
  by (simp add: last_slice_def take_rev)

lemma smart_parse_phones:
  "smart_parse q = Inr r \<Longrightarrow>
   phones r = map (\<lambda>p. last_slice 10 (filter is_digit p)) (findall PHONE_RE q)"
  by (auto simp: smart_parse_def Let_def re_sub_class_filter split: sum.splits)

text \<open>
  Claim C8. For every input text that parses to a record, the phones of the record are,
  in order, the phone texts found in the input, each with its non-digit characters
  stripped and cut to its last ten digits: a string of digits only, of length at most
  ten.
\<close>

theorem phones_normalized:
  assumes "smart_parse q = Inr r"
  shows "phones r = map (\<lambda>p. rev (take 10 (rev (filter is_digit p)))) (findall PHONE_RE q) \<and>
         (\<forall>d \<in> set (phones r). length d \<le> 10 \<and> list_all is_digit d)"
proof -
  from smart_parse_phones [OF assms]
  have p: "phones r = map (\<lambda>p. rev (take 10 (rev (filter is_digit p)))) (findall PHONE_RE q)"
    by (simp add: last_slice_rev)
  have "length d \<le> 10 \<and> list_all is_digit d" if "d \<in> set (phones r)" for d
  proof -
    from that p obtain m where d: "d = rev (take 10 (rev (filter is_digit m)))" by auto
    have "set (take 10 (rev (filter is_digit m))) \<subseteq> set (rev (filter is_digit m))"
      by (rule set_take_subset)
    with d show ?thesis by (auto simp: list_all_iff)
  qed
  with p show ?thesis by blast
qed

theorem phones_normalized_witness:
  "smart_parse ''John Smith, jsmith@example.com, (512) 555-0199'' =
     Inr \<lparr>name = ''John Smith'', city = None, state = None, emails = [''jsmith@example.com''],
          phones = [''5125550199''], raw = ''John Smith, jsmith@example.com, (512) 555-0199''\<rparr> \<and>
   findall PHONE_RE ''John Smith, jsmith@example.com, (512) 555-0199'' = [''(512) 555-0199''] \<and>
   length ''5125550199'' \<le> 10 \<and> list_all is_digit ''5125550199''"
proof -
  let ?q = "''John Smith, jsmith@example.com, (512) 555-0199''"
  let ?r = "\<lparr>name = ''John Smith'', city = None, state = None, emails = [''jsmith@example.com''],
          phones = [''5125550199''], raw = ?q\<rparr>"
  have e: "smart_parse ?q = Inr ?r"
    by code_simp
  have f: "findall PHONE_RE ?q = [''(512) 555-0199'']"
    by code_simp
  from phones_normalized [OF e] have "length ''5125550199'' \<le> 10 \<and> list_all is_digit ''5125550199''"
    by simp
  with e f show ?thesis by blast
qed

text \<open>
  Claim C9. For every input text that parses to a record, every entry of the phones of
  the record has exactly ten characters: a text matched by \<^verbatim>\<open>PHONE_RE\<close> has at least
  ten digits (\<open>phone_lang\<close>).
\<close>

theorem phones_ten_digits:
  assumes "smart_parse q = Inr r"
  shows "\<forall>d \<in> set (phones r). length d = 10"
proof
  fix d assume "d \<in> set (phones r)"
  with smart_parse_phones [OF assms] obtain m where
    m: "m \<in> set (findall PHONE_RE q)" and d: "d = last_slice 10 (filter is_digit m)" by auto
  from m have "10 \<le> length (filter is_digit m)"
    by (intro phone_lang findall_lang)
  with d show "length d = 10"
    by (simp add: last_slice_def)
qed

theorem phones_ten_digits_witness:
  "smart_parse ''call +1 (512)555.0199 now'' =
     Inr \<lparr>name = ''Call Now'', city = None, state = None, emails = [],
          phones = [''5125550199''], raw = ''call +1 (512)555.0199 now''\<rparr> \<and>
   length ''5125550199'' = 10"
proof -
  let ?q = "''call +1 (512)555.0199 now''"
  let ?r = "\<lparr>name = ''Call Now'', city = None, state = None, emails = [],
          phones = [''5125550199''], raw = ?q\<rparr>"
  have e: "smart_parse ?q = Inr ?r"
    by code_simp
  from phones_ten_digits [OF e] have "length ''5125550199'' = 10"
    by simp
  with e show ?thesis by blast
qed

subsection \<open>The city\<close>

lemma find_state_city: "find_state segs = Inr (c, s) \<Longrightarrow> c \<noteq> Some []"
  by (induction segs) (auto simp: Let_def split: if_splits sum.splits)

text \<open>
  Claim C10. For every input text that parses to a record, the city of the record is
  never the empty string: it is absent or a non-empty string.
\<close>

theorem city_never_empty:
  assumes "smart_parse q = Inr r"
  shows "city r \<noteq> Some []"
  using assms
  by (auto simp: smart_parse_def parse_fields_def Let_def split: sum.splits if_splits
      dest: find_state_city)

theorem city_never_empty_witness:
  "smart_parse ''Bob Ray, TX'' =
     Inr \<lparr>name = ''Bob Ray'', city = None, state = Some ''TX'', emails = [],
          phones = [], raw = ''Bob Ray, TX''\<rparr> \<and>
   city \<lparr>name = ''Bob Ray'', city = None, state = Some ''TX'', emails = [],
          phones = [], raw = ''Bob Ray, TX''\<rparr> \<noteq> Some []"
proof -
  have e: "smart_parse ''Bob Ray, TX'' =
     Inr \<lparr>name = ''Bob Ray'', city = None, state = Some ''TX'', emails = [],
          phones = [], raw = ''Bob Ray, TX''\<rparr>"
    by code_simp
  from city_never_empty [OF e] e show ?thesis by blast
qed

subsection \<open>The parser never fails\<close>

text \<open>
  The three index reads of the source, \<^verbatim>\<open>candidates[0]\<close>, \<^verbatim>\<open>parts[0]\<close> and
  \<^verbatim>\<open>tokens[-1]\<close>, are each guarded by a test that the list is not empty.
\<close>

lemma item_first: "xs \<noteq> [] \<Longrightarrow> item xs 0 = Inr (hd xs)"
  by (cases xs) (simp_all add: item_def)

lemma item_last: "xs \<noteq> [] \<Longrightarrow> item xs (- 1) = Inr (last xs)"
  by (cases xs rule: rev_cases) (simp_all add: item_def nth_append)

lemma pick_name_total: "parts \<noteq> [] \<Longrightarrow> \<exists>n. pick_name parts = Inr n"
  by (simp add: pick_name_def Let_def item_first)

lemma find_state_total: "\<exists>c s. find_state segs = Inr (c, s)"
  by (induction segs) (simp_all add: Let_def item_last)

lemma parse_fields_total: "\<exists>n c s. parse_fields work = Inr (n, c, s)"
proof (cases "segments work = []")
  case True
  then show ?thesis by (simp add: parse_fields_def)
next
  case False
  from pick_name_total [OF False] obtain n where n: "pick_name (segments work) = Inr n" ..
  from find_state_total obtain c s where "find_state (tl (segments work)) = Inr (c, s)" by blast
  with False n show ?thesis by (simp add: parse_fields_def)
qed

lemma smart_parse_total: "\<exists>r. smart_parse q = Inr r \<and> raw r = q"
proof -
  from parse_fields_total obtain n c s where "parse_fields (work_text q) = Inr (n, c, s)" by blast
  then show ?thesis by (simp add: smart_parse_def)
qed

text \<open>A text of whitespace and commas only.\<close>

lemma blank_not_word: "is_space c \<or> c = CHR '','' \<Longrightarrow> \<not> word_dot_dash c"
  by (auto simp: word_dot_dash_def is_word_def is_alpha_def is_upper_def is_lower_def
      is_digit_def is_space_def code_def)

lemma blank_not_phone:
  "is_space c \<or> c = CHR '','' \<Longrightarrow> \<not> is_digit c \<and> c \<noteq> CHR ''+'' \<and> c \<noteq> CHR ''1'' \<and> c \<noteq> CHR ''(''"
  by (auto simp: is_digit_def is_space_def code_def)

lemma email_no_match: "\<not> word_dot_dash c \<Longrightarrow> re_match EMAIL_RE (c # cs) = None"
  by (simp add: re_match_def EMAIL_RE_def)

lemma email_no_match_Nil: "re_match EMAIL_RE [] = None"
  by (simp add: re_match_def EMAIL_RE_def)

lemma phone_no_match:
  "\<not> is_digit c \<Longrightarrow> c \<noteq> CHR ''+'' \<Longrightarrow> c \<noteq> CHR ''1'' \<Longrightarrow> c \<noteq> CHR ''('' \<Longrightarrow>
   re_match PHONE_RE (c # cs) = None"
  by (simp add: re_match_def PHONE_RE_def country_prefix_def digits3_def)

lemma phone_no_match_Nil: "re_match PHONE_RE [] = None"
  by (simp add: re_match_def PHONE_RE_def country_prefix_def digits3_def)

lemma findall_email_blank:
  "\<forall>c \<in> set q. is_space c \<or> c = CHR '','' \<Longrightarrow> findall EMAIL_RE q = []"
  by (induction q) (simp_all add: email_no_match email_no_match_Nil blank_not_word)

lemma findall_phone_blank:
  "\<forall>c \<in> set q. is_space c \<or> c = CHR '','' \<Longrightarrow> findall PHONE_RE q = []"
  by (induction q) (simp_all add: phone_no_match phone_no_match_Nil blank_not_phone)

lemma split_at_chars: "p \<in> set (split_at sep tok s) \<Longrightarrow> set p \<subseteq> set tok \<union> (set s - {sep})"
proof (induction s arbitrary: tok)
  case Nil
  then show ?case by simp
next
  case (Cons c cs)
  show ?case
  proof (cases "c = sep")
    case True
    with Cons.prems have "p = tok \<or> p \<in> set (split_at sep [] cs)" by simp
    then show ?thesis
    proof
      assume "p = tok"
      then show ?thesis by simp
    next
      assume "p \<in> set (split_at sep [] cs)"
      from Cons.IH [OF this] show ?thesis by auto
    qed
  next
    case False
    with Cons.prems have "p \<in> set (split_at sep (tok @ [c]) cs)" by simp
    from Cons.IH [OF this] False show ?thesis by auto
  qed
qed

lemma strip_blank:
  assumes "\<forall>c \<in> set p. is_space c"
  shows "strip p = []"
proof -
  from assms have "dropWhile is_space p = []"
    by (simp add: dropWhile_eq_Nil_conv)
  then show ?thesis
    by (simp add: strip_def del: dropWhile_eq_Nil_conv)
qed

lemma segments_blank:
  assumes "\<forall>c \<in> set q. is_space c \<or> c = CHR '',''"
  shows "segments q = []"
proof -
  have "strip p = []" if "p \<in> set (split_on CHR '','' q)" for p
  proof -
    from that have "set p \<subseteq> set q - {CHR '',''}"
      using split_at_chars [of p "CHR '',''" "[]" q] by (simp add: split_on_def)
    with assms have "\<forall>c \<in> set p. is_space c" by auto
    then show ?thesis by (rule strip_blank)
  qed
  then show ?thesis
    by (simp add: segments_def filter_empty_conv)
qed

text \<open>
  Claim C5. For every input string, the empty one included, \<^verbatim>\<open>smart_parse\<close> returns a
  record and raises nothing, and the record keeps the input in \<^verbatim>\<open>raw\<close>. On a text
  without structure, one of whitespace and commas only, the name is empty, the city and
  the state are absent and there are no emails and no phones.
\<close>

theorem smart_parse_never_fails:
  "(\<exists>r. smart_parse q = Inr r \<and> raw r = q) \<and>
   ((\<forall>c \<in> set q. is_space c \<or> c = CHR '','') \<longrightarrow>
      smart_parse q =
        Inr \<lparr>name = [], city = None, state = None, emails = [], phones = [], raw = q\<rparr>)"
proof
  show "\<exists>r. smart_parse q = Inr r \<and> raw r = q"
    by (rule smart_parse_total)
  show "(\<forall>c \<in> set q. is_space c \<or> c = CHR '','') \<longrightarrow>
      smart_parse q =
        Inr \<lparr>name = [], city = None, state = None, emails = [], phones = [], raw = q\<rparr>"
  proof
    assume b: "\<forall>c \<in> set q. is_space c \<or> c = CHR '',''"
    then have e: "findall EMAIL_RE q = []" and p: "findall PHONE_RE q = []"
      by (simp_all add: findall_email_blank findall_phone_blank)
    then have w: "work_text q = q"
      by (simp add: work_text_def)
    from b have "segments q = []"
      by (rule segments_blank)
    then have "parse_fields q = Inr ([], None, None)"
      by (simp add: parse_fields_def title_name_def split_def)
    with e p w show "smart_parse q =
        Inr \<lparr>name = [], city = None, state = None, emails = [], phones = [], raw = q\<rparr>"
      by (simp add: smart_parse_def)
  qed
qed

theorem smart_parse_never_fails_witness:
  "smart_parse '' , ,'' =
     Inr \<lparr>name = [], city = None, state = None, emails = [], phones = [], raw = '' , ,''\<rparr> \<and>
   smart_parse [] =
     Inr \<lparr>name = [], city = None, state = None, emails = [], phones = [], raw = []\<rparr>"
proof -
  have "\<forall>c \<in> set '' , ,''. is_space c \<or> c = CHR '',''"
    by (simp add: is_space_def code_def)
  with smart_parse_never_fails [of "'' , ,''"] smart_parse_never_fails [of "[]"]
  show ?thesis by simp
qed

subsection \<open>The working text\<close>

text \<open>
  Replacing by a space cannot bring together an occurrence of a text that has no space
  in it: such an occurrence lies inside a piece of the old text.
\<close>

lemma contains_drop: "contains m (drop n t) \<Longrightarrow> contains m t"
proof (induction t arbitrary: n)
  case Nil
  then show ?case by simp
next
  case (Cons c cs)
  show ?case
  proof (cases n)
    case 0
    with Cons.prems show ?thesis by simp
  next
    case (Suc k)
    with Cons.prems have "contains m (drop k cs)" by simp
    then have "contains m cs" by (rule Cons.IH)
    then show ?thesis by simp
  qed
qed

lemma prefix_replace_scan:
  "new = '' '' \<Longrightarrow> CHR '' '' \<notin> set m \<Longrightarrow> prefix m (replace_scan old new t) \<Longrightarrow> prefix m t"
proof (induction old new t arbitrary: m rule: replace_scan.induct)
  case (1 old new)
  then show ?case by simp
next
  case (2 old new c cs)
  show ?case
  proof (cases "old \<noteq> [] \<and> prefix old (c # cs)")
    case True
    with "2.prems" have "prefix m (CHR '' '' # replace_scan old new (drop (length old) (c # cs)))"
      by simp
    with "2.prems"(2) have "m = []"
      by (cases m) auto
    then show ?thesis by simp
  next
    case False
    with "2.prems" have p: "prefix m (c # replace_scan old new cs)"
      by auto
    show ?thesis
    proof (cases m)
      case Nil
      then show ?thesis by simp
    next
      case (Cons a m')
      with p have a: "a = c" and "prefix m' (replace_scan old new cs)" by simp_all
      moreover from Cons "2.prems"(2) have "CHR '' '' \<notin> set m'" by simp
      ultimately have "prefix m' cs"
        using "2.IH"(2) [OF False "2.prems"(1)] by blast
      with a Cons show ?thesis by simp
    qed
  qed
qed

lemma contains_replace_scan:
  "new = '' '' \<Longrightarrow> CHR '' '' \<notin> set m \<Longrightarrow> m \<noteq> [] \<Longrightarrow> contains m (replace_scan old new t) \<Longrightarrow>
   contains m t"
proof (induction old new t rule: replace_scan.induct)
  case (1 old new)
  then show ?case by simp
next
  case (2 old new c cs)
  show ?case
  proof (cases "old \<noteq> [] \<and> prefix old (c # cs)")
    case True
    with "2.prems" have
      "contains m (CHR '' '' # replace_scan old new (drop (length old) (c # cs)))"
      by simp
    moreover from "2.prems"(2,3)
    have "\<not> prefix m (CHR '' '' # replace_scan old new (drop (length old) (c # cs)))"
      by (cases m) auto
    ultimately have "contains m (replace_scan old new (drop (length old) (c # cs)))"
      by simp
    with "2.IH"(1) [OF True "2.prems"(1,2,3)] have "contains m (drop (length old) (c # cs))"
      by blast
    then show ?thesis by (rule contains_drop)
  next
    case False
    with "2.prems"(4) have "prefix m (replace_scan old new (c # cs)) \<or>
        contains m (replace_scan old new cs)"
      by auto
    then show ?thesis
    proof
      assume "prefix m (replace_scan old new (c # cs))"
      with "2.prems"(1,2) have "prefix m (c # cs)" by (rule prefix_replace_scan)
      then show ?thesis by simp
    next
      assume "contains m (replace_scan old new cs)"
      with "2.IH"(2) [OF False "2.prems"(1,2,3)] show ?thesis by simp
    qed
  qed
qed

lemma replace_scan_self:
  "new = '' '' \<Longrightarrow> CHR '' '' \<notin> set old \<Longrightarrow> old \<noteq> [] \<Longrightarrow>
   \<not> contains old (replace_scan old new t)"
proof (induction old new t rule: replace_scan.induct)
  case (1 old new)
  then show ?case by simp
next
  case (2 old new c cs)
  show ?case
  proof (cases "old \<noteq> [] \<and> prefix old (c # cs)")
    case True
    from "2.prems"
    have "\<not> prefix old (CHR '' '' # replace_scan old new (drop (length old) (c # cs)))"
      by (cases old) auto
    with True "2.prems"(1) "2.IH"(1) [OF True "2.prems"] show ?thesis by simp
  next
    case False
    have "\<not> prefix old (replace_scan old new (c # cs))"
    proof
      assume "prefix old (replace_scan old new (c # cs))"
      with "2.prems"(1,2) have "prefix old (c # cs)" by (rule prefix_replace_scan)
      with False "2.prems"(3) show False by simp
    qed
    with False "2.IH"(2) [OF False "2.prems"] show ?thesis by auto
  qed
qed

lemma replace_keeps_absent:
  "CHR '' '' \<notin> set m \<Longrightarrow> m \<noteq> [] \<Longrightarrow> old \<noteq> [] \<Longrightarrow> \<not> contains m t \<Longrightarrow>
   \<not> contains m (replace old '' '' t)"
  using contains_replace_scan [of "'' ''" m old t] by (auto simp: replace_def)

lemma replace_removes:
  "CHR '' '' \<notin> set m \<Longrightarrow> m \<noteq> [] \<Longrightarrow> \<not> contains m (replace m '' '' t)"
  by (simp add: replace_def replace_scan_self)

lemma foldl_replace_keeps_absent:
  "CHR '' '' \<notin> set m \<Longrightarrow> m \<noteq> [] \<Longrightarrow> [] \<notin> set xs \<Longrightarrow> \<not> contains m t \<Longrightarrow>
   \<not> contains m (foldl (\<lambda>work p. replace p '' '' work) t xs)"
proof (induction xs arbitrary: t)
  case Nil
  then show ?case by simp
next
  case (Cons x xs)
  from Cons.prems have "\<not> contains m (replace x '' '' t)"
    by (intro replace_keeps_absent) auto
  with Cons.prems Cons.IH [of "replace x '' '' t"] show ?case by simp
qed

lemma foldl_replace_removes:
  "CHR '' '' \<notin> set m \<Longrightarrow> [] \<notin> set xs \<Longrightarrow> m \<in> set xs \<Longrightarrow>
   \<not> contains m (foldl (\<lambda>work p. replace p '' '' work) t xs)"
proof (induction xs arbitrary: t)
  case Nil
  then show ?case by simp
next
  case (Cons x xs)
  from Cons.prems have ne: "m \<noteq> []" by auto
  show ?case
  proof (cases "m = x")
    case True
    with Cons.prems(1) ne have "\<not> contains m (replace x '' '' t)"
      by (simp add: replace_removes)
    with Cons.prems ne
    have "\<not> contains m (foldl (\<lambda>work p. replace p '' '' work) (replace x '' '' t) xs)"
      by (intro foldl_replace_keeps_absent) auto
    then show ?thesis by simp
  next
    case False
    with Cons.prems Cons.IH [of "replace x '' '' t"] show ?thesis by simp
  qed
qed

lemma findall_email_nonempty: "[] \<notin> set (findall EMAIL_RE q)"
  using email_lang findall_lang by blast

lemma findall_phone_nonempty: "[] \<notin> set (findall PHONE_RE q)"
proof
  assume "[] \<in> set (findall PHONE_RE q)"
  then have "10 \<le> length (filter is_digit [])"
    by (intro phone_lang findall_lang)
  then show False by simp
qed

text \<open>
  What lines 50 to 52 achieve: the working text contains no email found in the query,
  and no phone text found in the query that is free of the space character.
\<close>

lemma work_text_free_of_matches:
  "(\<forall>e \<in> set (findall EMAIL_RE q). \<not> contains e (work_text q)) \<and>
   (\<forall>p \<in> set (findall PHONE_RE q). CHR '' '' \<notin> set p \<longrightarrow> \<not> contains p (work_text q))"
proof (intro conjI ballI impI)
  fix e assume e: "e \<in> set (findall EMAIL_RE q)"
  then have l: "e \<noteq> [] \<and> CHR '' '' \<notin> set e"
    by (intro email_lang findall_lang)
  then have "\<not> contains e (foldl (\<lambda>work e. replace e '' '' work) q (findall EMAIL_RE q))"
    using foldl_replace_removes [OF _ findall_email_nonempty e] by blast
  with l show "\<not> contains e (work_text q)"
    unfolding work_text_def
    using foldl_replace_keeps_absent [OF _ _ findall_phone_nonempty] by blast
next
  fix p assume "p \<in> set (findall PHONE_RE q)" "CHR '' '' \<notin> set p"
  then show "\<not> contains p (work_text q)"
    unfolding work_text_def
    using foldl_replace_removes [OF _ findall_phone_nonempty] by blast
qed

text \<open>
  Claim C3 says that the working text, from which the name, the city and the state are
  read, contains no matched email or phone text. A phone text with a space in it can
  come back when the replacement of a match by a space joins what stood around it: in
  the query below the only phone found is \<^verbatim>\<open>(512) 5550199\<close>, replacing it leaves
  exactly that text, and it becomes the name.
\<close>

theorem work_text_keeps_phone:
  "findall EMAIL_RE ''(512)(512) 55501995550199'' = [] \<and>
   findall PHONE_RE ''(512)(512) 55501995550199'' = [''(512) 5550199''] \<and>
   work_text ''(512)(512) 55501995550199'' = ''(512) 5550199'' \<and>
   contains ''(512) 5550199'' (work_text ''(512)(512) 55501995550199'') \<and>
   smart_parse ''(512)(512) 55501995550199'' =
     Inr \<lparr>name = ''(512) 5550199'', city = None, state = None, emails = [],
          phones = [''5125550199''], raw = ''(512)(512) 55501995550199''\<rparr>"
  by code_simp

end
